theory Spec2Isabelle
  imports Main "HOL-Library.Word"
begin

unbundle bit_operations_syntax

section \<open>DeviceSet: a growable bitset of device ids\<close>

text \<open>
  \<^verbatim>\<open>DeviceSet\<close> keeps its members in \<^verbatim>\<open>storage_\<close>, a vector of \<^verbatim>\<open>uint64\<close> words. A
  \<^verbatim>\<open>DeviceId\<close> wraps a non-negative \<^verbatim>\<open>int\<close> handed out by
  \<^verbatim>\<open>DeviceInfoCache::GetIdFor\<close>; it is a \<open>nat\<close> here.
\<close>

type_synonym DeviceId = nat
type_synonym DeviceSet = "64 word list"

text \<open>
  Modelled from the spec: \<^verbatim>\<open>kWordSize\<close> is a constant of device_util.h, which is not
  among the sources. The spec has it be the width of a storage word, and the storage
  words of the source are \<^verbatim>\<open>uint64\<close>.
\<close>

definition kWordSize :: nat where
  "kWordSize = 64"

text \<open>\<^verbatim>\<open>std::vector::resize(n, v)\<close>: truncate to \<open>n\<close> elements or pad with \<open>v\<close>.\<close>

definition resize :: "nat \<Rightarrow> 'a \<Rightarrow> 'a list \<Rightarrow> 'a list" where
  "resize n v xs = take n xs @ replicate (n - length xs) v"

definition Insert :: "DeviceSet \<Rightarrow> DeviceId \<Rightarrow> DeviceSet" where
  "Insert storage device_id =
     (let word_index = device_id div kWordSize;
          bit_index = device_id mod kWordSize;
          storage1 = (if word_index \<ge> length storage
                      then resize (word_index + 1) 0 storage else storage)
      in storage1[word_index := (storage1 ! word_index) OR push_bit bit_index 1])"

text \<open>
  \<^verbatim>\<open>UnionWith\<close>: grow to the other operand's size, then OR the other operand's words in,
  one index after the other. Every index the loop touches is below both lengths.
\<close>

definition UnionWith :: "DeviceSet \<Rightarrow> DeviceSet \<Rightarrow> DeviceSet" where
  "UnionWith storage other =
     (let storage1 = (if length other > length storage
                      then resize (length other) 0 storage else storage)
      in fold (\<lambda>i st. st[i := (st ! i) OR (other ! i)]) [0..<length other] storage1)"

definition IsEmpty :: "DeviceSet \<Rightarrow> bool" where
  "IsEmpty storage = list_all (\<lambda>val. val = 0) storage"

text \<open>
  Modelled from the spec: \<^verbatim>\<open>DeviceSet::ForEach\<close> is a template of device_util.h, which
  is not among the sources. The spec has it produce the ids in ascending numeric order,
  word-major and then bit-minor, and stop as soon as the visitor returns false.
  \<open>members\<close> is that order; \<open>for_each\<close> runs a visitor over it. The visitor threads the
  variables it captures by reference as a state, and may hit undefined behaviour, which
  ends the run.
\<close>

fun members_from :: "nat \<Rightarrow> DeviceSet \<Rightarrow> DeviceId list" where
  "members_from word_index [] = []"
| "members_from word_index (w # ws) =
     map (\<lambda>bit_index. word_index * kWordSize + bit_index) (filter (bit w) [0..<kWordSize])
     @ members_from (Suc word_index) ws"

definition members :: "DeviceSet \<Rightarrow> DeviceId list" where
  "members storage = members_from 0 storage"

fun for_each :: "(DeviceId \<Rightarrow> 's \<Rightarrow> 'e + bool \<times> 's) \<Rightarrow> DeviceId list \<Rightarrow> 's \<Rightarrow> 'e + 's" where
  "for_each func [] s = Inr s"
| "for_each func (device # rest) s =
     (case func device s of
        Inl e \<Rightarrow> Inl e
      | Inr (continue, s') \<Rightarrow> if continue then for_each func rest s' else Inr s')"

definition ForEach :: "(DeviceId \<Rightarrow> 's \<Rightarrow> 'e + bool \<times> 's) \<Rightarrow> DeviceSet \<Rightarrow> 's \<Rightarrow> 'e + 's" where
  "ForEach func storage s = for_each func (members storage) s"

section \<open>Status values\<close>

text \<open>
  A failing \<^verbatim>\<open>Status\<close> is an \<open>error\<close>; \<^verbatim>\<open>StatusOr<T>\<close> is \<open>error + 'a\<close>.
\<close>

text \<open>
  Modelled from the spec: the macro \<^verbatim>\<open>TF_RET_CHECK\<close> (xla/status_macros.h) is not among
  the sources. The spec names the error it returns an invalid-argument error in
  \<^verbatim>\<open>GetIdFor\<close> and an internal error in the picker; \<open>RetCheckFailure\<close> is that error,
  with the condition that failed and the text streamed into it.

  \<open>Internal\<close> is \<^verbatim>\<open>errors::Internal\<close> with its arguments concatenated.
  \<open>UndefinedBehaviour\<close> is no \<^verbatim>\<open>Status\<close>: it marks the runs in which the C++ reads a
  vector out of range or dereferences an empty optional.
\<close>

datatype error =
    RetCheckFailure string string
  | Internal string
  | UndefinedBehaviour

type_synonym Status = "error option"

section \<open>DeviceInfoCache: interning device names\<close>

text \<open>
  The collaborators of \<^verbatim>\<open>GetIdFor\<close>, none of them among the sources, are parameters:
  \<^verbatim>\<open>DeviceNameUtils::ParseFullName\<close> (the type of the parsed name, or failure),
  \<^verbatim>\<open>XlaOpRegistry::GetCompilationDevice\<close> (the registration found for a device type,
  if any, as an opaque handle) and the constants \<^verbatim>\<open>DEVICE_CPU\<close> and \<^verbatim>\<open>DEVICE_GPU\<close>.
\<close>

type_synonym DeviceRegistration = nat

record collaborators =
  ParseFullName :: "string \<Rightarrow> string option"
  GetCompilationDevice :: "string \<Rightarrow> DeviceRegistration option"
  DEVICE_CPU :: string
  DEVICE_GPU :: string

record DeviceInfoCache =
  name_to_id :: "string \<rightharpoonup> DeviceId"
  id_to_compilation_device :: "DeviceRegistration option list"
  id_to_device_type :: "string list"
  names :: "string list"
  is_cpu :: "bool list"
  is_gpu :: "bool list"

definition DeviceNameToDeviceType :: "collaborators \<Rightarrow> string \<Rightarrow> error + string" where
  "DeviceNameToDeviceType env device =
     (case ParseFullName env device of
        None \<Rightarrow> Inl (Internal (''Malformed assigned device '' @ [CHR 0x27] @ device @ [CHR 0x27]))
      | Some parsed_type \<Rightarrow> Inr parsed_type)"

text \<open>
  \<^verbatim>\<open>GetIdFor\<close> returns its \<^verbatim>\<open>StatusOr<DeviceId>\<close> together with the cache as the call
  leaves it. The pushes onto \<^verbatim>\<open>names_\<close> and \<^verbatim>\<open>id_to_device_type_\<close> come before the name
  is parsed, and \<^verbatim>\<open>TF_RETURN_IF_ERROR\<close> returns right after a failed parse. The pushed
  \<^verbatim>\<open>DeviceType("")\<close> is overwritten in place by a successful parse.
\<close>

definition GetIdFor ::
  "collaborators \<Rightarrow> DeviceInfoCache \<Rightarrow> string \<Rightarrow> (error + DeviceId) \<times> DeviceInfoCache" where
  "GetIdFor env c name =
     (if name = [] then (Inl (RetCheckFailure ''!name.empty()'' []), c)
      else case name_to_id c name of
        Some device_id \<Rightarrow> (Inr device_id, c)
      | None \<Rightarrow>
         (let new_id = length (names c);
              c1 = c\<lparr>names := names c @ [name]\<rparr>;
              c2 = c1\<lparr>id_to_device_type := id_to_device_type c1 @ ['''']\<rparr>
          in case DeviceNameToDeviceType env (last (names c2)) of
               Inl e \<Rightarrow> (Inl e, c2)
             | Inr device_type \<Rightarrow>
                (let c3 = c2\<lparr>id_to_device_type := butlast (id_to_device_type c2) @ [device_type]\<rparr>;
                     c4 = c3\<lparr>is_cpu := is_cpu c3 @ [device_type = DEVICE_CPU env]\<rparr>;
                     c5 = c4\<lparr>is_gpu := is_gpu c4 @ [device_type = DEVICE_GPU env]\<rparr>;
                     c6 = c5\<lparr>name_to_id := (name_to_id c5)(name \<mapsto> new_id)\<rparr>;
                     compilation_device = GetCompilationDevice env device_type;
                     c7 = c6\<lparr>id_to_compilation_device :=
                               id_to_compilation_device c6 @ [compilation_device]\<rparr>
                 in (Inr new_id, c7))))"

text \<open>
  Modelled from the spec: \<^verbatim>\<open>IsCpu\<close>, \<^verbatim>\<open>IsGpu\<close> and \<^verbatim>\<open>GetNameFor\<close> are inline members
  of device_util.h, which is not among the sources. The spec has them look the attribute
  up by id, with undefined behaviour for an id the sequence does not hold.
\<close>

definition IsCpu :: "DeviceInfoCache \<Rightarrow> DeviceId \<Rightarrow> error + bool" where
  "IsCpu c device =
     (if device < length (is_cpu c) then Inr (is_cpu c ! device) else Inl UndefinedBehaviour)"

definition IsGpu :: "DeviceInfoCache \<Rightarrow> DeviceId \<Rightarrow> error + bool" where
  "IsGpu c device =
     (if device < length (is_gpu c) then Inr (is_gpu c ! device) else Inl UndefinedBehaviour)"

definition GetNameFor :: "DeviceInfoCache \<Rightarrow> DeviceId \<Rightarrow> error + string" where
  "GetNameFor c device =
     (if device < length (names c) then Inr (names c ! device) else Inl UndefinedBehaviour)"

text \<open>
  Modelled from the spec: \<^verbatim>\<open>absl::StrJoin\<close> is not among the sources. The spec has
  \<^verbatim>\<open>DebugString\<close> render a comma-joined list: the strings with the separator between
  neighbours.
\<close>

fun StrJoin :: "string list \<Rightarrow> string \<Rightarrow> string" where
  "StrJoin [] sep = []"
| "StrJoin [x] sep = x"
| "StrJoin (x # y # zs) sep = x @ sep @ StrJoin (y # zs) sep"

text \<open>
  The visitor of \<^verbatim>\<open>DebugString\<close> appends the device's name and returns \<^verbatim>\<open>false\<close>.
\<close>

definition push_name ::
  "DeviceInfoCache \<Rightarrow> DeviceId \<Rightarrow> string list \<Rightarrow> error + bool \<times> string list" where
  "push_name c device_id collected =
     (case GetNameFor c device_id of
        Inl e \<Rightarrow> Inl e
      | Inr name \<Rightarrow> Inr (False, collected @ [name]))"

definition DebugString :: "DeviceInfoCache \<Rightarrow> DeviceSet \<Rightarrow> error + string" where
  "DebugString c device_set =
     (case ForEach (push_name c) device_set [] of
        Inl e \<Rightarrow> Inl e
      | Inr collected \<Rightarrow> Inr (''['' @ StrJoin collected '','' @ '']''))"

section \<open>The device picker\<close>

text \<open>The locals of \<^verbatim>\<open>PickDeviceForXlaImpl\<close> that the classification pass updates.\<close>

record scan =
  maybe_gpu_device :: "DeviceId option"
  maybe_cpu_device :: "DeviceId option"
  maybe_unknown_device :: "DeviceId option"
  multiple_cpu_devices :: bool
  multiple_gpu_devices :: bool
  multiple_unknown_devices :: bool

definition scan_init :: scan where
  "scan_init =
     \<lparr>maybe_gpu_device = None, maybe_cpu_device = None, maybe_unknown_device = None,
      multiple_cpu_devices = False, multiple_gpu_devices = False,
      multiple_unknown_devices = False\<rparr>"

text \<open>The visitor of the classification pass (the lambda given to \<^verbatim>\<open>devices.ForEach\<close>).\<close>

definition classify :: "DeviceInfoCache \<Rightarrow> DeviceId \<Rightarrow> scan \<Rightarrow> error + bool \<times> scan" where
  "classify c device s =
     (case IsGpu c device of
        Inl e \<Rightarrow> Inl e
      | Inr gpu \<Rightarrow>
          if gpu then
            (if maybe_gpu_device s \<noteq> None
             then Inr (False, s\<lparr>multiple_gpu_devices := True\<rparr>)
             else Inr (True, s\<lparr>maybe_gpu_device := Some device\<rparr>))
          else
            (case IsCpu c device of
               Inl e \<Rightarrow> Inl e
             | Inr cpu \<Rightarrow>
                 if cpu then
                   (if maybe_cpu_device s \<noteq> None
                    then Inr (False, s\<lparr>multiple_cpu_devices := True\<rparr>)
                    else Inr (True, s\<lparr>maybe_cpu_device := Some device\<rparr>))
                 else
                   (if maybe_unknown_device s \<noteq> None
                    then Inr (False, s\<lparr>multiple_unknown_devices := True\<rparr>)
                    else Inr (True, s\<lparr>maybe_unknown_device := Some device\<rparr>))))"

text \<open>
  \<^verbatim>\<open>errors::Internal(prefix, DebugString(devices))\<close> and
  \<^verbatim>\<open>errors::Internal(prefix, GetNameFor(a), ", ", GetNameFor(b))\<close>. Undefined behaviour
  while an argument is computed is the outcome of the whole expression.
\<close>

definition multiple_devices_error :: "string \<Rightarrow> error + string \<Rightarrow> error" where
  "multiple_devices_error prefix debug_string =
     (case debug_string of Inl e \<Rightarrow> e | Inr text \<Rightarrow> Internal (prefix @ text))"

definition found_both_error :: "DeviceInfoCache \<Rightarrow> string \<Rightarrow> DeviceId \<Rightarrow> DeviceId \<Rightarrow> error" where
  "found_both_error c prefix a b =
     (case GetNameFor c a of
        Inl e \<Rightarrow> e
      | Inr name_a \<Rightarrow>
          (case GetNameFor c b of
             Inl e \<Rightarrow> e
           | Inr name_b \<Rightarrow> Internal (prefix @ name_a @ '', '' @ name_b)))"

text \<open>
  The chain of checks after the pass, in the order of the source: the status handed to
  the first \<^verbatim>\<open>FAILED_TO_PICK_DEVICE\<close> that is reached, if any.
\<close>

definition first_conflict :: "DeviceInfoCache \<Rightarrow> DeviceSet \<Rightarrow> bool \<Rightarrow> scan \<Rightarrow> error option" where
  "first_conflict c devices allow_mixing_unknown_and_cpu s =
     (if multiple_cpu_devices s
      then Some (multiple_devices_error ''Multiple CPU devices '' (DebugString c devices))
      else if multiple_gpu_devices s
      then Some (multiple_devices_error ''Multiple GPU devices '' (DebugString c devices))
      else if multiple_unknown_devices s
      then Some (multiple_devices_error ''Multiple unknown devices '' (DebugString c devices))
      else
        (case (maybe_unknown_device s, maybe_gpu_device s) of
           (Some u, Some g) \<Rightarrow>
             Some (found_both_error c ''Found both unknown and GPU devices: '' u g)
         | _ \<Rightarrow>
             (if \<not> allow_mixing_unknown_and_cpu then
                (case (maybe_unknown_device s, maybe_cpu_device s) of
                   (Some u, Some k) \<Rightarrow>
                     Some (found_both_error c ''Found both unknown and CPU devices: '' u k)
                 | _ \<Rightarrow> None)
              else None)))"

text \<open>
  The final selection. Dereferencing \<^verbatim>\<open>maybe_cpu_device\<close> when it is empty is undefined
  in the C++; here the device picked stays empty and the caller's dereference fails.
\<close>

definition select_device :: "scan \<Rightarrow> DeviceId option" where
  "select_device s =
     (case maybe_gpu_device s of
        Some g \<Rightarrow> Some g
      | None \<Rightarrow>
          (case maybe_unknown_device s of
             Some u \<Rightarrow> Some u
           | None \<Rightarrow> maybe_cpu_device s))"

text \<open>
  The macro \<^verbatim>\<open>FAILED_TO_PICK_DEVICE\<close>. A call of the picker yields its \<^verbatim>\<open>Status\<close>
  (\<open>None\<close> is OK) and what it leaves in \<^verbatim>\<open>*out_can_pick_device\<close> and
  \<^verbatim>\<open>*out_device_picked\<close> (\<open>None\<close> is never written); the two boolean arguments say
  which of the out-pointers is not null.
\<close>

definition FAILED_TO_PICK_DEVICE :: "bool \<Rightarrow> error \<Rightarrow> Status \<times> bool option \<times> DeviceId option" where
  "FAILED_TO_PICK_DEVICE out_can_pick_device failing_status =
     (if out_can_pick_device then (None, Some False, None)
      else (Some failing_status, None, None))"

definition PickDeviceForXlaImpl ::
  "DeviceInfoCache \<Rightarrow> DeviceSet \<Rightarrow> bool \<Rightarrow> bool \<Rightarrow> bool \<Rightarrow> Status \<times> bool option \<times> DeviceId option" where
  "PickDeviceForXlaImpl c devices allow_mixing_unknown_and_cpu out_can_pick_device out_device_picked =
     (let can_pick = (if out_can_pick_device then Some True else None) in
      if IsEmpty devices
      then (Some (RetCheckFailure ''!devices.IsEmpty()'' ''No devices to choose from''),
            can_pick, None)
      else
        (case ForEach (classify c) devices scan_init of
           Inl e \<Rightarrow> (Some e, can_pick, None)
         | Inr s \<Rightarrow>
             (case first_conflict c devices allow_mixing_unknown_and_cpu s of
                Some failing_status \<Rightarrow> FAILED_TO_PICK_DEVICE out_can_pick_device failing_status
              | None \<Rightarrow>
                  (None, can_pick, if out_device_picked then select_device s else None))))"

definition PickDeviceForXla :: "DeviceInfoCache \<Rightarrow> DeviceSet \<Rightarrow> bool \<Rightarrow> error + DeviceId" where
  "PickDeviceForXla c devices allow_mixing_unknown_and_cpu =
     (case PickDeviceForXlaImpl c devices allow_mixing_unknown_and_cpu False True of
        (Some e, _, _) \<Rightarrow> Inl e
      | (None, _, device) \<Rightarrow>
          (case device of None \<Rightarrow> Inl UndefinedBehaviour | Some d \<Rightarrow> Inr d))"

definition CanPickDeviceForXla :: "DeviceInfoCache \<Rightarrow> DeviceSet \<Rightarrow> bool \<Rightarrow> error + bool" where
  "CanPickDeviceForXla c devices allow_mixing_unknown_and_cpu =
     (case PickDeviceForXlaImpl c devices allow_mixing_unknown_and_cpu True False of
        (Some e, _, _) \<Rightarrow> Inl e
      | (None, can_pick_device, _) \<Rightarrow>
          (case can_pick_device of None \<Rightarrow> Inl UndefinedBehaviour | Some b \<Rightarrow> Inr b))"

section \<open>Vocabulary of the specification\<close>

text \<open>
  The three buckets of the picker, read off a cache: a device is a GPU when \<^verbatim>\<open>IsGpu\<close>
  says so, else a CPU when \<^verbatim>\<open>IsCpu\<close> says so, else of unknown class.
\<close>

datatype device_class = GpuClass | CpuClass | UnknownClass

definition class_of :: "DeviceInfoCache \<Rightarrow> DeviceId \<Rightarrow> device_class" where
  "class_of c device =
     (if IsGpu c device = Inr True then GpuClass
      else if IsCpu c device = Inr True then CpuClass
      else UnknownClass)"

text \<open>The ids of a list are known to the cache: every attribute lookup is in range.\<close>

definition known_ids :: "DeviceInfoCache \<Rightarrow> DeviceId list \<Rightarrow> bool" where
  "known_ids c ids =
     list_all (\<lambda>d. d < length (names c) \<and> d < length (is_cpu c) \<and> d < length (is_gpu c)) ids"

text \<open>
  The class of the first device, in iteration order, whose class an earlier device
  already has; \<open>seen\<close> holds the classes met so far.
\<close>

fun first_repeat :: "device_class list \<Rightarrow> device_class list \<Rightarrow> device_class option" where
  "first_repeat seen [] = None"
| "first_repeat seen (k # ks) = (if k \<in> set seen then Some k else first_repeat (k # seen) ks)"

datatype conflict =
  MultipleGpu | MultipleCpu | MultipleUnknown | UnknownAndGpu | UnknownAndCpu

fun conflict_text :: "conflict \<Rightarrow> string" where
  "conflict_text MultipleGpu = ''Multiple GPU devices ''"
| "conflict_text MultipleCpu = ''Multiple CPU devices ''"
| "conflict_text MultipleUnknown = ''Multiple unknown devices ''"
| "conflict_text UnknownAndGpu = ''Found both unknown and GPU devices: ''"
| "conflict_text UnknownAndCpu = ''Found both unknown and CPU devices: ''"

fun multiple_of :: "device_class \<Rightarrow> conflict" where
  "multiple_of GpuClass = MultipleGpu"
| "multiple_of CpuClass = MultipleCpu"
| "multiple_of UnknownClass = MultipleUnknown"

text \<open>
  The conflict the picker reports for the classes of the devices in iteration order: the
  bucket that is first to receive a second device; with no such bucket, unknown with
  GPU; then, unless the flag allows it, unknown with CPU.
\<close>

definition reported_conflict :: "device_class list \<Rightarrow> bool \<Rightarrow> conflict option" where
  "reported_conflict classes allow_mixing_unknown_and_cpu =
     (case first_repeat [] classes of
        Some k \<Rightarrow> Some (multiple_of k)
      | None \<Rightarrow>
          if UnknownClass \<in> set classes \<and> GpuClass \<in> set classes then Some UnknownAndGpu
          else if \<not> allow_mixing_unknown_and_cpu \<and> UnknownClass \<in> set classes
                  \<and> CpuClass \<in> set classes
          then Some UnknownAndCpu
          else None)"

text \<open>The word of a set's storage at an index, zero beyond the storage.\<close>

definition word_at :: "DeviceSet \<Rightarrow> nat \<Rightarrow> 64 word" where
  "word_at storage i = (if i < length storage then storage ! i else 0)"

section \<open>Sample inputs\<close>

definition sample_env :: collaborators where
  "sample_env =
     \<lparr>ParseFullName = map_of
        [(''/device:CPU:0'', ''CPU''), (''/device:CPU:1'', ''CPU''),
         (''/device:GPU:0'', ''GPU''), (''/device:GPU:1'', ''GPU''),
         (''/device:XPU:0'', ''XPU'')],
      GetCompilationDevice = map_of [(''CPU'', 0), (''GPU'', 1)],
      DEVICE_CPU = ''CPU'', DEVICE_GPU = ''GPU''\<rparr>"

definition empty_cache :: DeviceInfoCache where
  "empty_cache =
     \<lparr>name_to_id = Map.empty, id_to_compilation_device = [], id_to_device_type = [],
      names = [], is_cpu = [], is_gpu = []\<rparr>"

text \<open>
  A cache as \<^verbatim>\<open>GetIdFor\<close> leaves it after interning the given names, with the device
  types as \<open>sample_env\<close> parses them.
\<close>

definition cache_of :: "(string \<times> string) list \<Rightarrow> DeviceInfoCache" where
  "cache_of named =
     \<lparr>name_to_id = map_of (zip (map fst named) [0..<length named]),
      id_to_compilation_device = map (\<lambda>(n, t). GetCompilationDevice sample_env t) named,
      id_to_device_type = map snd named,
      names = map fst named,
      is_cpu = map (\<lambda>(n, t). t = ''CPU'') named,
      is_gpu = map (\<lambda>(n, t). t = ''GPU'') named\<rparr>"

definition cpu_gpu_cache :: DeviceInfoCache where
  "cpu_gpu_cache = cache_of [(''/device:CPU:0'', ''CPU''), (''/device:GPU:0'', ''GPU'')]"

definition cpu_cpu_gpu_gpu_cache :: DeviceInfoCache where
  "cpu_cpu_gpu_gpu_cache =
     cache_of [(''/device:CPU:0'', ''CPU''), (''/device:CPU:1'', ''CPU''),
               (''/device:GPU:0'', ''GPU''), (''/device:GPU:1'', ''GPU'')]"

definition cpu_xpu_gpu_cache :: DeviceInfoCache where
  "cpu_xpu_gpu_cache =
     cache_of [(''/device:CPU:0'', ''CPU''), (''/device:XPU:0'', ''XPU''),
               (''/device:GPU:0'', ''GPU'')]"

text \<open>The sample cache of a CPU and a GPU, with no registration recorded for either.\<close>

definition cpu_gpu_cache_unregistered :: DeviceInfoCache where
  "cpu_gpu_cache_unregistered =
     cpu_gpu_cache\<lparr>id_to_compilation_device := [None, None]\<rparr>"

text \<open>Interning a list of names, one call of \<^verbatim>\<open>GetIdFor\<close> after the other.\<close>

definition intern_all :: "collaborators \<Rightarrow> string list \<Rightarrow> DeviceInfoCache \<Rightarrow> DeviceInfoCache" where
  "intern_all env device_names c = fold (\<lambda>name c. snd (GetIdFor env c name)) device_names c"

text \<open>A device set built by inserting ids into the empty set.\<close>

definition device_set_of :: "DeviceId list \<Rightarrow> DeviceSet" where
  "device_set_of ids = fold (\<lambda>d s. Insert s d) ids []"

section \<open>Vocabulary of the proofs\<close>

text \<open>
  The bucket and the flag of a class in the locals of the pass, and the two updates the
  visitor makes.
\<close>

fun bucket :: "device_class \<Rightarrow> scan \<Rightarrow> DeviceId option" where
  "bucket GpuClass s = maybe_gpu_device s"
| "bucket CpuClass s = maybe_cpu_device s"
| "bucket UnknownClass s = maybe_unknown_device s"

fun multiple :: "device_class \<Rightarrow> scan \<Rightarrow> bool" where
  "multiple GpuClass s = multiple_gpu_devices s"
| "multiple CpuClass s = multiple_cpu_devices s"
| "multiple UnknownClass s = multiple_unknown_devices s"

fun fill_bucket :: "device_class \<Rightarrow> DeviceId \<Rightarrow> scan \<Rightarrow> scan" where
  "fill_bucket GpuClass d s = s\<lparr>maybe_gpu_device := Some d\<rparr>"
| "fill_bucket CpuClass d s = s\<lparr>maybe_cpu_device := Some d\<rparr>"
| "fill_bucket UnknownClass d s = s\<lparr>maybe_unknown_device := Some d\<rparr>"

fun flag_multiple :: "device_class \<Rightarrow> scan \<Rightarrow> scan" where
  "flag_multiple GpuClass s = s\<lparr>multiple_gpu_devices := True\<rparr>"
| "flag_multiple CpuClass s = s\<lparr>multiple_cpu_devices := True\<rparr>"
| "flag_multiple UnknownClass s = s\<lparr>multiple_unknown_devices := True\<rparr>"

text \<open>The class the final selection prefers among the classes present: GPU, unknown, CPU.\<close>

definition top_class :: "DeviceInfoCache \<Rightarrow> DeviceId list \<Rightarrow> device_class" where
  "top_class c ids =
     (if GpuClass \<in> class_of c ` set ids then GpuClass
      else if UnknownClass \<in> class_of c ` set ids then UnknownClass
      else CpuClass)"

section \<open>Facts about device sets\<close>

lemma fold_or_nth:
  "n \<le> length st \<Longrightarrow> n \<le> length other \<Longrightarrow>
   fold (\<lambda>i st. st[i := (st ! i) OR (other ! i)]) [0..<n] st
     = map (\<lambda>i. if i < n then (st ! i) OR (other ! i) else st ! i) [0..<length st]"
proof (induction n)
  case 0
  then show ?case by (simp add: map_nth)
next
  case (Suc n)
  then have "fold (\<lambda>i st. st[i := (st ! i) OR (other ! i)]) [0..<Suc n] st
     = (map (\<lambda>i. if i < n then (st ! i) OR (other ! i) else st ! i) [0..<length st])[n := (st ! n) OR (other ! n)]"
    by simp
  also have "\<dots> = map (\<lambda>i. if i < Suc n then (st ! i) OR (other ! i) else st ! i) [0..<length st]"
    using Suc.prems by (intro nth_equalityI) (simp_all add: nth_list_update less_Suc_eq)
  finally show ?case .
qed

lemma length_resize: "length (resize n v xs) = n"
  by (simp add: resize_def)

lemma nth_resize:
  "i < n \<Longrightarrow> resize n v xs ! i = (if i < length xs then xs ! i else v)"
  by (simp add: resize_def nth_append)

lemma UnionWith_words:
  "UnionWith a b = map (\<lambda>i. word_at a i OR word_at b i) [0..<max (length a) (length b)]"
proof (cases "length b > length a")
  case True
  then show ?thesis
    by (simp add: UnionWith_def fold_or_nth length_resize nth_resize word_at_def max_def)
next
  case False
  then show ?thesis
    by (simp add: UnionWith_def fold_or_nth word_at_def max_def)
qed

lemma word_at_UnionWith: "word_at (UnionWith a b) i = word_at a i OR word_at b i"
  by (auto simp: UnionWith_words word_at_def)

lemma length_UnionWith: "length (UnionWith a b) = max (length a) (length b)"
  by (simp add: UnionWith_words)

lemma in_members_from:
  "d \<in> set (members_from k ws) \<longleftrightarrow>
     k \<le> d div kWordSize \<and> d div kWordSize - k < length ws \<and>
     bit (ws ! (d div kWordSize - k)) (d mod kWordSize)"
proof (induction ws arbitrary: k)
  case Nil
  then show ?case by simp
next
  case (Cons w ws)
  have here: "d \<in> (\<lambda>b. k * kWordSize + b) ` {b. b < kWordSize \<and> bit w b}
      \<longleftrightarrow> d div kWordSize = k \<and> bit w (d mod kWordSize)"
  proof
    assume "d \<in> (\<lambda>b. k * kWordSize + b) ` {b. b < kWordSize \<and> bit w b}"
    then obtain b where "d = k * kWordSize + b" "b < kWordSize" "bit w b" by auto
    then show "d div kWordSize = k \<and> bit w (d mod kWordSize)" by simp
  next
    assume h: "d div kWordSize = k \<and> bit w (d mod kWordSize)"
    have "d = k * kWordSize + d mod kWordSize" using h
      by (metis div_mult_mod_eq)
    moreover have "d mod kWordSize < kWordSize" by (simp add: kWordSize_def)
    ultimately show "d \<in> (\<lambda>b. k * kWordSize + b) ` {b. b < kWordSize \<and> bit w b}"
      using h by blast
  qed
  have "set (members_from k (w # ws)) =
      (\<lambda>b. k * kWordSize + b) ` {b. b < kWordSize \<and> bit w b} \<union> set (members_from (Suc k) ws)"
    by auto
  then have "d \<in> set (members_from k (w # ws)) \<longleftrightarrow>
      (d div kWordSize = k \<and> bit w (d mod kWordSize)) \<or> d \<in> set (members_from (Suc k) ws)"
    using here by simp
  also have "\<dots> \<longleftrightarrow> k \<le> d div kWordSize \<and> d div kWordSize - k < length (w # ws) \<and>
     bit ((w # ws) ! (d div kWordSize - k)) (d mod kWordSize)"
  proof (cases "d div kWordSize = k")
    case True
    then show ?thesis by (simp add: Cons.IH)
  next
    case False
    show ?thesis
    proof (cases "k \<le> d div kWordSize")
      case True
      with False obtain m where m: "d div kWordSize - k = Suc m" "d div kWordSize - Suc k = m"
        by (metis Suc_diff_Suc le_neq_implies_less)
      with False True show ?thesis by (auto simp: Cons.IH)
    next
      case nle: False
      with False show ?thesis by (simp add: Cons.IH)
    qed
  qed
  finally show ?case .
qed

lemma in_members: "d \<in> set (members s) \<longleftrightarrow> bit (word_at s (d div kWordSize)) (d mod kWordSize)"
  by (simp add: members_def in_members_from word_at_def)

lemma word_bits_empty: "filter (bit (w :: 64 word)) [0..<kWordSize] = [] \<longleftrightarrow> w = 0"
proof
  assume h: "filter (bit w) [0..<kWordSize] = []"
  have "\<not> bit w n" for n
  proof (cases "n < kWordSize")
    case True
    with h show ?thesis by (simp add: filter_empty_conv)
  next
    case False
    then show ?thesis using bit_imp_le_length [of w n] by (auto simp: kWordSize_def)
  qed
  then show "w = 0" by (simp add: bit_eq_iff)
next
  assume "w = 0"
  then show "filter (bit w) [0..<kWordSize] = []" by (simp add: filter_empty_conv)
qed

lemma members_from_empty: "members_from k ws = [] \<longleftrightarrow> list_all (\<lambda>val. val = 0) ws"
proof (induction ws arbitrary: k)
  case Nil
  then show ?case by simp
next
  case (Cons w ws)
  then show ?case by (simp add: word_bits_empty del: upt.simps)
qed


lemma members_empty: "members s = [] \<longleftrightarrow> IsEmpty s"
  by (simp add: members_def IsEmpty_def members_from_empty)

lemma sorted_members_from: "sorted_wrt (<) (members_from k ws)"
proof (induction ws arbitrary: k)
  case Nil
  then show ?case by simp
next
  case (Cons w ws)
  have a: "sorted_wrt (<) (map (\<lambda>b. k * kWordSize + b) (filter (bit w) [0..<kWordSize]))"
    by (simp add: sorted_wrt_map sorted_wrt_filter del: upt.simps)
  have b: "x < y" if "x \<in> set (map (\<lambda>b. k * kWordSize + b) (filter (bit w) [0..<kWordSize]))"
    and "y \<in> set (members_from (Suc k) ws)" for x y
  proof -
    from that(1) obtain b where "x = k * kWordSize + b" "b < kWordSize" by auto
    then have "x < Suc k * kWordSize" by simp
    moreover from that(2) have "Suc k \<le> y div kWordSize" by (simp add: in_members_from)
    then have "Suc k * kWordSize \<le> (y div kWordSize) * kWordSize"
      by (rule mult_le_mono1)
    then have "Suc k * kWordSize \<le> y"
      by (metis div_mult_mod_eq le_add1 le_trans)
    ultimately show ?thesis by (rule less_le_trans)
  qed
  have "members_from k (w # ws) =
      map (\<lambda>b. k * kWordSize + b) (filter (bit w) [0..<kWordSize]) @ members_from (Suc k) ws"
    by simp
  then show ?case using a b Cons.IH [of "Suc k"] by (simp only: sorted_wrt_append) blast
qed

lemma sorted_members: "sorted_wrt (<) (members s)"
  by (simp add: members_def sorted_members_from)

lemma distinct_members: "distinct (members s)"
  using sorted_members strict_sorted_iff by blast

text \<open>
  C9: \<^verbatim>\<open>UnionWith\<close> makes an id a member exactly when it is a member of one of the two
  operands; a second union with the same operand changes nothing; and the union in
  either order has the same storage, hence the same member ids in the same order.
\<close>

theorem UnionWith_or_commutative_idempotent:
  "(d \<in> set (members (UnionWith a b)) \<longleftrightarrow> d \<in> set (members a) \<or> d \<in> set (members b))
   \<and> UnionWith (UnionWith a b) b = UnionWith a b
   \<and> UnionWith a b = UnionWith b a
   \<and> set (members (UnionWith a b)) = set (members (UnionWith b a))"
proof -
  have member: "d \<in> set (members (UnionWith a b)) \<longleftrightarrow> d \<in> set (members a) \<or> d \<in> set (members b)"
    by (simp add: in_members word_at_UnionWith bit_or_iff)
  have comm: "UnionWith a b = UnionWith b a"
    by (simp add: UnionWith_words or.commute max.commute)
  have "UnionWith (UnionWith a b) b
      = map (\<lambda>i. (word_at a i OR word_at b i) OR word_at b i) [0..<max (length a) (length b)]"
    by (simp add: UnionWith_words [of "UnionWith a b" b] word_at_UnionWith length_UnionWith)
  also have "\<dots> = UnionWith a b"
    by (simp add: UnionWith_words or.assoc)
  finally have idem: "UnionWith (UnionWith a b) b = UnionWith a b" .
  from member comm idem show ?thesis by simp
qed

theorem UnionWith_or_commutative_idempotent_witness:
  "UnionWith (UnionWith [1] [0, 2]) [0, 2] = UnionWith [1] [0, 2]
   \<and> UnionWith [1] [0, 2] = UnionWith [0, 2] [1]
   \<and> UnionWith [1] [0, 2] = [1, 2]
   \<and> 65 \<in> set (members (UnionWith [1] [0, 2]))"
proof -
  have u: "UnionWith [1] [0, 2] = [1, 2]"
    by (simp add: UnionWith_def resize_def)
  have m: "65 \<in> set (members [0, 2])"
    by (simp add: in_members word_at_def kWordSize_def)
  note t = UnionWith_or_commutative_idempotent [of 65 "[1]" "[0, 2]"]
  from t m have "65 \<in> set (members (UnionWith [1] [0, 2]))" by blast
  with t u show ?thesis by blast
qed

section \<open>Facts about the cache\<close>

lemma GetIdFor_known:
  "name \<noteq> [] \<Longrightarrow> name_to_id c name = Some d \<Longrightarrow> GetIdFor env c name = (Inr d, c)"
  by (simp add: GetIdFor_def)

lemma GetIdFor_parse_failure:
  assumes "name \<noteq> []" and "name_to_id c name = None" and "ParseFullName env name = None"
  shows "GetIdFor env c name =
    (Inl (Internal (''Malformed assigned device '' @ [CHR 0x27] @ name @ [CHR 0x27])),
     c\<lparr>names := names c @ [name], id_to_device_type := id_to_device_type c @ ['''']\<rparr>)"
  using assms by (simp add: GetIdFor_def DeviceNameToDeviceType_def Let_def)

lemma GetIdFor_new:
  assumes "name \<noteq> []" and "name_to_id c name = None" and "ParseFullName env name = Some ty"
  shows "GetIdFor env c name =
    (Inr (length (names c)),
     c\<lparr>names := names c @ [name],
       id_to_device_type := id_to_device_type c @ [ty],
       is_cpu := is_cpu c @ [ty = DEVICE_CPU env],
       is_gpu := is_gpu c @ [ty = DEVICE_GPU env],
       name_to_id := (name_to_id c)(name \<mapsto> length (names c)),
       id_to_compilation_device := id_to_compilation_device c @ [GetCompilationDevice env ty]\<rparr>)"
  using assms by (simp add: GetIdFor_def DeviceNameToDeviceType_def Let_def)

text \<open>
  C6: \<^verbatim>\<open>GetIdFor\<close> is idempotent. For a non-empty name that parses, on any cache, two
  calls in a row return the same id, and the second call leaves the cache as the first
  one left it (the size grows by zero). At first sight of the name the first call hands
  out the next id, the number of names grows by exactly one and the name is the one new
  key of the intern table; for a name interned before, the first call changes nothing
  either.
\<close>

theorem GetIdFor_idempotent:
  assumes "name \<noteq> []" and "ParseFullName env name = Some ty"
  shows "\<exists>d c1. GetIdFor env c name = (Inr d, c1) \<and> GetIdFor env c1 name = (Inr d, c1)
           \<and> (name_to_id c name = None \<longrightarrow>
                d = length (names c) \<and> length (names c1) = length (names c) + 1
                \<and> dom (name_to_id c1) = insert name (dom (name_to_id c)))
           \<and> (name_to_id c name \<noteq> None \<longrightarrow> c1 = c)"
proof (cases "name_to_id c name")
  case None
  let ?c1 = "snd (GetIdFor env c name)"
  have first: "GetIdFor env c name = (Inr (length (names c)), ?c1)"
    using assms None by (simp add: GetIdFor_new)
  have tab: "name_to_id ?c1 = (name_to_id c)(name \<mapsto> length (names c))"
    and len: "names ?c1 = names c @ [name]"
    using assms None by (simp_all add: GetIdFor_new)
  have second: "GetIdFor env ?c1 name = (Inr (length (names c)), ?c1)"
    using assms(1) tab by (simp add: GetIdFor_known)
  show ?thesis using first second tab len None by auto
next
  case (Some d)
  then show ?thesis using assms(1) by (auto simp: GetIdFor_known)
qed

theorem GetIdFor_idempotent_witness:
  "''/device:CPU:0'' \<noteq> [] \<and> ParseFullName sample_env ''/device:CPU:0'' = Some ''CPU''
   \<and> name_to_id empty_cache ''/device:CPU:0'' = None
   \<and> (\<exists>d c1. GetIdFor sample_env empty_cache ''/device:CPU:0'' = (Inr d, c1)
         \<and> GetIdFor sample_env c1 ''/device:CPU:0'' = (Inr d, c1)
         \<and> d = 0 \<and> length (names c1) = 1)"
proof -
  have p: "ParseFullName sample_env ''/device:CPU:0'' = Some ''CPU''"
    by (simp add: sample_env_def)
  have n: "name_to_id empty_cache ''/device:CPU:0'' = None" "names empty_cache = []"
    by (simp_all add: empty_cache_def)
  have ne: "''/device:CPU:0'' \<noteq> []" by simp
  from GetIdFor_idempotent [OF ne p, of empty_cache] n p ne show ?thesis
    by auto
qed

text \<open>
  C7: \<^verbatim>\<open>GetIdFor\<close> on the empty string fails with the error of the \<^verbatim>\<open>TF_RET_CHECK\<close> on
  \<^verbatim>\<open>!name.empty()\<close> (the spec's invalid-argument error), hands out no id and leaves the
  cache as it was.
\<close>

theorem GetIdFor_empty_name:
  "GetIdFor env c [] = (Inl (RetCheckFailure ''!name.empty()'' []), c)"
  by (simp add: GetIdFor_def)

theorem GetIdFor_empty_name_witness:
  "GetIdFor sample_env cpu_gpu_cache [] = (Inl (RetCheckFailure ''!name.empty()'' []), cpu_gpu_cache)"
  using GetIdFor_empty_name [of sample_env cpu_gpu_cache] .

text \<open>
  C5: what \<^verbatim>\<open>GetIdFor\<close> does for a name that does not parse. On the empty cache and the
  name \<open>bad\<close> it returns the parse error, but the cache keeps the two pushes made before
  the parse: \<^verbatim>\<open>names_\<close> has one entry, \<^verbatim>\<open>is_cpu_\<close> has none. The next name interned gets
  id 1, for which \<^verbatim>\<open>is_cpu_\<close> has no entry.
\<close>

theorem GetIdFor_failed_parse_keeps_pushes:
  "GetIdFor sample_env empty_cache ''bad'' =
     (Inl (Internal (''Malformed assigned device '' @ [CHR 0x27] @ ''bad'' @ [CHR 0x27])),
      empty_cache\<lparr>names := [''bad''], id_to_device_type := ['''']\<rparr>)
   \<and> length (names (snd (GetIdFor sample_env empty_cache ''bad''))) = 1
   \<and> length (is_cpu (snd (GetIdFor sample_env empty_cache ''bad''))) = 0
   \<and> fst (GetIdFor sample_env (snd (GetIdFor sample_env empty_cache ''bad'')) ''/device:CPU:0'') = Inr 1
   \<and> IsCpu (snd (GetIdFor sample_env (snd (GetIdFor sample_env empty_cache ''bad'')) ''/device:CPU:0'')) 1
        = Inl UndefinedBehaviour"
proof -
  have bad: "GetIdFor sample_env empty_cache ''bad'' =
     (Inl (Internal (''Malformed assigned device '' @ [CHR 0x27] @ ''bad'' @ [CHR 0x27])),
      empty_cache\<lparr>names := [''bad''], id_to_device_type := ['''']\<rparr>)"
    using GetIdFor_parse_failure [of "''bad''" empty_cache sample_env]
    by (simp add: sample_env_def empty_cache_def)
  let ?c = "empty_cache\<lparr>names := [''bad''], id_to_device_type := ['''']\<rparr>"
  have next_call: "GetIdFor sample_env ?c ''/device:CPU:0'' =
    (Inr 1, ?c\<lparr>names := [''bad'', ''/device:CPU:0''], id_to_device_type := ['''', ''CPU''],
       is_cpu := [True], is_gpu := [False],
       name_to_id := (name_to_id ?c)(''/device:CPU:0'' \<mapsto> 1),
       id_to_compilation_device := [Some 0]\<rparr>)"
    using GetIdFor_new [of "''/device:CPU:0''" ?c sample_env "''CPU''"]
    by (simp add: sample_env_def empty_cache_def)
  have l1: "length (names (snd (GetIdFor sample_env empty_cache ''bad''))) = 1"
    and l2: "length (is_cpu (snd (GetIdFor sample_env empty_cache ''bad''))) = 0"
    by (simp_all add: bad) (simp add: empty_cache_def)
  have l3: "fst (GetIdFor sample_env (snd (GetIdFor sample_env empty_cache ''bad'')) ''/device:CPU:0'') = Inr 1"
    by (simp add: bad next_call)
  have l4: "IsCpu (snd (GetIdFor sample_env (snd (GetIdFor sample_env empty_cache ''bad'')) ''/device:CPU:0'')) 1
        = Inl UndefinedBehaviour"
    by (simp add: bad next_call IsCpu_def)
  from bad l1 l2 l3 l4 show ?thesis by blast
qed

text \<open>
  The visitor of \<^verbatim>\<open>DebugString\<close> returns \<^verbatim>\<open>false\<close>, so the traversal ends after the first
  member.
\<close>

lemma DebugString_first_only:
  assumes "members ds = d # rest" and "d < length (names c)"
  shows "DebugString c ds = Inr (''['' @ names c ! d @ '']'')"
  using assms by (simp add: DebugString_def ForEach_def push_name_def GetNameFor_def)

lemma members_01: "members (device_set_of [0, 1]) = [0, 1]"
  by code_simp

text \<open>
  C8: what \<^verbatim>\<open>DebugString\<close> does on the set of the devices \<open>/device:CPU:0\<close> (id 0) and
  \<open>/device:GPU:0\<close> (id 1): it renders the name of the first member only, in brackets.
\<close>

theorem DebugString_renders_first_name_only:
  "members (device_set_of [0, 1]) = [0, 1]
   \<and> GetNameFor cpu_gpu_cache 0 = Inr ''/device:CPU:0''
   \<and> GetNameFor cpu_gpu_cache 1 = Inr ''/device:GPU:0''
   \<and> DebugString cpu_gpu_cache (device_set_of [0, 1]) = Inr ''[/device:CPU:0]''"
proof -
  have n: "names cpu_gpu_cache = [''/device:CPU:0'', ''/device:GPU:0'']"
    by (simp add: cpu_gpu_cache_def cache_of_def)
  have d: "DebugString cpu_gpu_cache (device_set_of [0, 1]) = Inr ''[/device:CPU:0]''"
    using DebugString_first_only [OF members_01, of cpu_gpu_cache] by (simp add: n)
  have g0: "GetNameFor cpu_gpu_cache 0 = Inr ''/device:CPU:0''"
    and g1: "GetNameFor cpu_gpu_cache 1 = Inr ''/device:GPU:0''"
    by (simp_all add: GetNameFor_def n)
  from members_01 g0 g1 d show ?thesis by blast
qed

section \<open>The classification pass\<close>

lemma bucket_fill: "bucket k' (fill_bucket k d s) = (if k' = k then Some d else bucket k' s)"
  by (cases k; cases k') simp_all

lemma multiple_fill: "multiple k' (fill_bucket k d s) = multiple k' s"
  by (cases k; cases k') simp_all

lemma bucket_flag: "bucket k' (flag_multiple k s) = bucket k' s"
  by (cases k; cases k') simp_all

lemma multiple_flag: "multiple k' (flag_multiple k s) = (k' = k \<or> multiple k' s)"
  by (cases k; cases k') simp_all

lemma bucket_init: "bucket k scan_init = None"
  by (cases k) (simp_all add: scan_init_def)

lemma multiple_init: "\<not> multiple k scan_init"
  by (cases k) (simp_all add: scan_init_def)

lemma known_ids_Cons:
  "known_ids c (d # ids) \<longleftrightarrow>
     d < length (names c) \<and> d < length (is_cpu c) \<and> d < length (is_gpu c) \<and> known_ids c ids"
  by (simp add: known_ids_def)

lemma known_ids_member:
  "known_ids c ids \<Longrightarrow> d \<in> set ids \<Longrightarrow>
     d < length (names c) \<and> d < length (is_cpu c) \<and> d < length (is_gpu c)"
  by (simp add: known_ids_def list_all_iff)

lemma classify_known:
  assumes "d < length (is_cpu c)" and "d < length (is_gpu c)"
  shows "classify c d s =
    Inr (if bucket (class_of c d) s \<noteq> None then (False, flag_multiple (class_of c d) s)
         else (True, fill_bucket (class_of c d) d s))"
  using assms by (simp add: classify_def class_of_def IsGpu_def IsCpu_def)

lemma for_each_classify:
  assumes "known_ids c ids"
    and "\<And>k. \<not> multiple k s"
    and "\<And>k. bucket k s \<noteq> None \<longleftrightarrow> k \<in> set seen"
  shows "\<exists>s'. for_each (classify c) ids s = Inr s' \<and>
    (case first_repeat seen (map (class_of c) ids) of
       Some k \<Rightarrow> (\<forall>k'. multiple k' s' \<longleftrightarrow> k' = k)
     | None \<Rightarrow> (\<forall>k. \<not> multiple k s') \<and>
         (\<forall>k. bucket k s' =
            (case bucket k s of Some d \<Rightarrow> Some d | None \<Rightarrow> find (\<lambda>d. class_of c d = k) ids)))"
  using assms
proof (induction ids arbitrary: s seen)
  case Nil
  then show ?case by (auto split: option.splits)
next
  case (Cons d ids)
  let ?k = "class_of c d"
  from Cons.prems(1) have known: "d < length (is_cpu c)" "d < length (is_gpu c)" "known_ids c ids"
    by (simp_all add: known_ids_Cons)
  show ?case
  proof (cases "?k \<in> set seen")
    case True
    then have full: "bucket ?k s \<noteq> None" using Cons.prems(3) by blast
    have "for_each (classify c) (d # ids) s = Inr (flag_multiple ?k s)"
      using full by (simp add: classify_known [OF known(1,2)])
    moreover have "first_repeat seen (map (class_of c) (d # ids)) = Some ?k"
      using True by simp
    moreover have "\<forall>k'. multiple k' (flag_multiple ?k s) \<longleftrightarrow> k' = ?k"
      using Cons.prems(2) by (simp add: multiple_flag)
    ultimately show ?thesis by simp
  next
    case False
    then have empty: "bucket ?k s = None" using Cons.prems(3) by blast
    let ?s1 = "fill_bucket ?k d s"
    have step: "for_each (classify c) (d # ids) s = for_each (classify c) ids ?s1"
      using empty by (simp add: classify_known [OF known(1,2)])
    have fr: "first_repeat seen (map (class_of c) (d # ids))
        = first_repeat (?k # seen) (map (class_of c) ids)"
      using False by simp
    have m1: "\<And>k. \<not> multiple k ?s1" using Cons.prems(2) by (simp add: multiple_fill)
    have b1: "\<And>k. bucket k ?s1 \<noteq> None \<longleftrightarrow> k \<in> set (?k # seen)"
      using Cons.prems(3) by (auto simp: bucket_fill)
    from Cons.IH [OF known(3) m1 b1] obtain s' where
      run: "for_each (classify c) ids ?s1 = Inr s'" and
      res: "(case first_repeat (?k # seen) (map (class_of c) ids) of
       Some k \<Rightarrow> (\<forall>k'. multiple k' s' \<longleftrightarrow> k' = k)
     | None \<Rightarrow> (\<forall>k. \<not> multiple k s') \<and>
         (\<forall>k. bucket k s' =
            (case bucket k ?s1 of Some d \<Rightarrow> Some d | None \<Rightarrow> find (\<lambda>d. class_of c d = k) ids)))"
      by blast
    have conv: "(case bucket k ?s1 of Some d \<Rightarrow> Some d | None \<Rightarrow> find (\<lambda>d. class_of c d = k) ids)
        = (case bucket k s of Some d \<Rightarrow> Some d | None \<Rightarrow> find (\<lambda>d. class_of c d = k) (d # ids))" for k
      using empty by (auto simp: bucket_fill split: option.splits)
    show ?thesis
      using run res unfolding step fr conv by blast
  qed
qed

lemma scan_result:
  assumes "known_ids c ids"
  shows "\<exists>s'. for_each (classify c) ids scan_init = Inr s' \<and>
    (case first_repeat [] (map (class_of c) ids) of
       Some k \<Rightarrow> (\<forall>k'. multiple k' s' \<longleftrightarrow> k' = k)
     | None \<Rightarrow> (\<forall>k. \<not> multiple k s') \<and>
         (\<forall>k. bucket k s' = find (\<lambda>d. class_of c d = k) ids))"
  using for_each_classify [OF assms, of scan_init "[]"]
  by (simp add: bucket_init multiple_init cong: option.case_cong)


lemma first_repeat_None: "first_repeat seen ks = None \<longleftrightarrow> distinct ks \<and> set ks \<inter> set seen = {}"
  by (induction ks arbitrary: seen) auto

lemma first_repeat_Some: "first_repeat seen ks = Some k \<Longrightarrow> k \<in> set ks"
  by (induction ks arbitrary: seen) (auto split: if_splits)

lemma find_class_None: "find (\<lambda>d. class_of c d = k) ids = None \<longleftrightarrow> k \<notin> class_of c ` set ids"
  by (auto simp: find_None_iff)

lemma find_class_Some:
  "find (\<lambda>d. class_of c d = k) ids = Some d \<Longrightarrow> d \<in> set ids \<and> class_of c d = k"
  by (auto simp: find_Some_iff)

lemma DebugString_known:
  assumes "members ds \<noteq> []" and "known_ids c (members ds)"
  shows "DebugString c ds = Inr (''['' @ names c ! hd (members ds) @ '']'')"
proof -
  from assms(1) obtain d rest where m: "members ds = d # rest" by (cases "members ds") auto
  with assms(2) have "d < length (names c)" by (simp add: known_ids_Cons)
  with m show ?thesis by (simp add: DebugString_first_only)
qed

lemma found_both_known:
  assumes "a < length (names c)" and "b < length (names c)"
  shows "found_both_error c prefix a b = Internal (prefix @ names c ! a @ '', '' @ names c ! b)"
  using assms by (simp add: found_both_error_def GetNameFor_def)

section \<open>Outcome of the picker\<close>

lemma first_conflict_multiple:
  assumes "\<forall>k'. multiple k' s \<longleftrightarrow> k' = k"
  shows "first_conflict c ds allow s =
    Some (multiple_devices_error (conflict_text (multiple_of k)) (DebugString c ds))"
proof -
  from assms have "multiple GpuClass s \<longleftrightarrow> GpuClass = k" "multiple CpuClass s \<longleftrightarrow> CpuClass = k"
    "multiple UnknownClass s \<longleftrightarrow> UnknownClass = k" by blast+
  then show ?thesis by (cases k) (simp_all add: first_conflict_def)
qed

lemma first_conflict_no_multiple:
  assumes "\<forall>k. \<not> multiple k s"
  shows "first_conflict c ds allow s =
    (case (bucket UnknownClass s, bucket GpuClass s) of
       (Some u, Some g) \<Rightarrow> Some (found_both_error c ''Found both unknown and GPU devices: '' u g)
     | _ \<Rightarrow>
         (if \<not> allow then
            (case (bucket UnknownClass s, bucket CpuClass s) of
               (Some u, Some k) \<Rightarrow>
                 Some (found_both_error c ''Found both unknown and CPU devices: '' u k)
             | _ \<Rightarrow> None)
          else None))"
proof -
  from assms have "\<not> multiple GpuClass s" "\<not> multiple CpuClass s" "\<not> multiple UnknownClass s"
    by blast+
  then show ?thesis by (auto simp: first_conflict_def split: option.splits)
qed

lemma select_device_buckets:
  assumes b: "\<forall>k. bucket k s = find (\<lambda>d. class_of c d = k) ids" and ne: "ids \<noteq> []"
  shows "\<exists>d. select_device s = Some d \<and> d \<in> set ids \<and>
    class_of c d = (if GpuClass \<in> class_of c ` set ids then GpuClass
                    else if UnknownClass \<in> class_of c ` set ids then UnknownClass
                    else CpuClass)"
proof -
  have sel: "select_device s =
     (case find (\<lambda>d. class_of c d = GpuClass) ids of
        Some g \<Rightarrow> Some g
      | None \<Rightarrow>
          (case find (\<lambda>d. class_of c d = UnknownClass) ids of
             Some u \<Rightarrow> Some u
           | None \<Rightarrow> find (\<lambda>d. class_of c d = CpuClass) ids))"
    using b [rule_format, of GpuClass] b [rule_format, of UnknownClass] b [rule_format, of CpuClass]
    by (simp add: select_device_def cong: option.case_cong)
  show ?thesis
  proof (cases "find (\<lambda>d. class_of c d = GpuClass) ids")
    case (Some g)
    from find_class_Some [OF Some] have "GpuClass \<in> class_of c ` set ids" by force
    then show ?thesis using sel Some find_class_Some [OF Some] by simp
  next
    case gNone: None
    then have nog: "GpuClass \<notin> class_of c ` set ids" by (simp add: find_class_None)
    show ?thesis
    proof (cases "find (\<lambda>d. class_of c d = UnknownClass) ids")
      case (Some u)
      from find_class_Some [OF Some] have "UnknownClass \<in> class_of c ` set ids" by force
      then show ?thesis using sel gNone nog Some find_class_Some [OF Some] by simp
    next
      case uNone: None
      then have nou: "UnknownClass \<notin> class_of c ` set ids" by (simp add: find_class_None)
      from ne obtain d0 where d0: "d0 \<in> set ids" by (cases ids) auto
      then have "class_of c d0 = CpuClass" using nog nou by (cases "class_of c d0") force+
      then have "CpuClass \<in> class_of c ` set ids" using d0 by force
      then obtain k where k: "find (\<lambda>d. class_of c d = CpuClass) ids = Some k"
        using find_class_None [of c CpuClass ids] by auto
      then show ?thesis using sel gNone uNone nog nou find_class_Some [OF k] by simp
    qed
  qed
qed

lemma Impl_outcome:
  assumes ne: "\<not> IsEmpty ds" and known: "known_ids c (members ds)"
  shows "case reported_conflict (map (class_of c) (members ds)) allow of
      Some k \<Rightarrow> \<exists>rest. PickDeviceForXlaImpl c ds allow cp dp
                   = FAILED_TO_PICK_DEVICE cp (Internal (conflict_text k @ rest))
    | None \<Rightarrow> \<exists>d. d \<in> set (members ds) \<and> class_of c d = top_class c (members ds) \<and>
         PickDeviceForXlaImpl c ds allow cp dp
           = (None, if cp then Some True else None, if dp then Some d else None)"
proof -
  let ?ids = "members ds"
  let ?ks = "map (class_of c) ?ids"
  from ne have ids_ne: "?ids \<noteq> []" by (simp add: members_empty)
  from scan_result [OF known] obtain s where
    run: "for_each (classify c) ?ids scan_init = Inr s" and
    res: "case first_repeat [] ?ks of
       Some k \<Rightarrow> (\<forall>k'. multiple k' s \<longleftrightarrow> k' = k)
     | None \<Rightarrow> (\<forall>k. \<not> multiple k s) \<and>
         (\<forall>k. bucket k s = find (\<lambda>d. class_of c d = k) ?ids)"
    by blast
  have impl: "PickDeviceForXlaImpl c ds allow cp dp =
     (case first_conflict c ds allow s of
        Some failing_status \<Rightarrow> FAILED_TO_PICK_DEVICE cp failing_status
      | None \<Rightarrow> (None, if cp then Some True else None, if dp then select_device s else None))"
    using ne run by (simp add: PickDeviceForXlaImpl_def ForEach_def)
  show ?thesis
  proof (cases "first_repeat [] ?ks")
    case (Some k)
    with res have "\<forall>k'. multiple k' s \<longleftrightarrow> k' = k" by simp
    from first_conflict_multiple [OF this, of c ds allow]
    have "first_conflict c ds allow s =
        Some (Internal (conflict_text (multiple_of k) @ (''['' @ names c ! hd ?ids @ '']'')))"
      by (simp add: DebugString_known [OF ids_ne known] multiple_devices_error_def)
    then show ?thesis using Some impl by (auto simp: reported_conflict_def)
  next
    case None
    with res have nom: "\<forall>k. \<not> multiple k s"
      and b: "\<forall>k. bucket k s = find (\<lambda>d. class_of c d = k) ?ids" by simp_all
    have mem: "k \<in> class_of c ` set ?ids \<longleftrightarrow> bucket k s \<noteq> None" for k
      using b find_class_None [of c k ?ids] by auto
    have nm: "d < length (names c)" if "bucket k s = Some d" for k d
      using that b find_class_Some [of c k ?ids d] known_ids_member [OF known, of d] by auto
    note fc = first_conflict_no_multiple [OF nom, of c ds allow]
    show ?thesis
    proof (cases "bucket UnknownClass s \<noteq> None \<and> bucket GpuClass s \<noteq> None")
      case True
      then obtain u g where ug: "bucket UnknownClass s = Some u" "bucket GpuClass s = Some g"
        by auto
      have "first_conflict c ds allow s = Some (Internal (conflict_text UnknownAndGpu
              @ (names c ! u @ '', '' @ names c ! g)))"
        using fc ug nm [OF ug(1)] nm [OF ug(2)] by (simp add: found_both_known)
      moreover have "reported_conflict ?ks allow = Some UnknownAndGpu"
        using None True by (simp add: reported_conflict_def mem)
      ultimately show ?thesis using impl by auto
    next
      case noug: False
      show ?thesis
      proof (cases "\<not> allow \<and> bucket UnknownClass s \<noteq> None \<and> bucket CpuClass s \<noteq> None")
        case True
        then obtain u k where uk: "bucket UnknownClass s = Some u" "bucket CpuClass s = Some k"
          by auto
        have "first_conflict c ds allow s = Some (Internal (conflict_text UnknownAndCpu
                @ (names c ! u @ '', '' @ names c ! k)))"
          using fc uk noug True nm [OF uk(1)] nm [OF uk(2)]
          by (auto simp: found_both_known split: option.splits)
        moreover have "reported_conflict ?ks allow = Some UnknownAndCpu"
          using None True noug by (simp add: reported_conflict_def mem)
        ultimately show ?thesis using impl by auto
      next
        case nouk: False
        have "first_conflict c ds allow s = None"
          using fc noug nouk by (auto split: option.splits)
        moreover have "reported_conflict ?ks allow = None"
          using None noug nouk by (simp add: reported_conflict_def mem)
        moreover from select_device_buckets [OF b ids_ne] obtain d where
          "select_device s = Some d" "d \<in> set ?ids" "class_of c d = top_class c ?ids"
          unfolding top_class_def by blast
        ultimately show ?thesis using impl by auto
      qed
    qed
  qed
qed

lemma picker_empty:
  assumes "IsEmpty ds"
  shows "PickDeviceForXla c ds allow
           = Inl (RetCheckFailure ''!devices.IsEmpty()'' ''No devices to choose from'')"
    and "CanPickDeviceForXla c ds allow
           = Inl (RetCheckFailure ''!devices.IsEmpty()'' ''No devices to choose from'')"
  using assms
  by (simp_all add: PickDeviceForXla_def CanPickDeviceForXla_def PickDeviceForXlaImpl_def)

lemma picker_outcome:
  assumes ne: "\<not> IsEmpty ds" and known: "known_ids c (members ds)"
  shows "case reported_conflict (map (class_of c) (members ds)) allow of
      Some k \<Rightarrow>
        (\<exists>rest. PickDeviceForXla c ds allow = Inl (Internal (conflict_text k @ rest)))
        \<and> CanPickDeviceForXla c ds allow = Inr False
    | None \<Rightarrow>
        (\<exists>d. d \<in> set (members ds) \<and> class_of c d = top_class c (members ds)
              \<and> PickDeviceForXla c ds allow = Inr d)
        \<and> CanPickDeviceForXla c ds allow = Inr True"
proof (cases "reported_conflict (map (class_of c) (members ds)) allow")
  case None
  from Impl_outcome [OF ne known, of allow False True] None obtain d where
    d: "d \<in> set (members ds)" "class_of c d = top_class c (members ds)"
    and "PickDeviceForXlaImpl c ds allow False True = (None, None, Some d)"
    by auto
  then have "PickDeviceForXla c ds allow = Inr d" by (simp add: PickDeviceForXla_def)
  moreover from Impl_outcome [OF ne known, of allow True False] None
  have "PickDeviceForXlaImpl c ds allow True False = (None, Some True, None)" by auto
  then have "CanPickDeviceForXla c ds allow = Inr True" by (simp add: CanPickDeviceForXla_def)
  ultimately show ?thesis using None d by auto
next
  case (Some k)
  from Impl_outcome [OF ne known, of allow False True] Some obtain rest where
    "PickDeviceForXlaImpl c ds allow False True
       = FAILED_TO_PICK_DEVICE False (Internal (conflict_text k @ rest))"
    by auto
  then have "PickDeviceForXla c ds allow = Inl (Internal (conflict_text k @ rest))"
    by (simp add: PickDeviceForXla_def FAILED_TO_PICK_DEVICE_def)
  moreover from Impl_outcome [OF ne known, of allow True False] Some obtain rest' where
    "PickDeviceForXlaImpl c ds allow True False
       = FAILED_TO_PICK_DEVICE True (Internal (conflict_text k @ rest'))"
    by auto
  then have "CanPickDeviceForXla c ds allow = Inr False"
    by (simp add: CanPickDeviceForXla_def FAILED_TO_PICK_DEVICE_def)
  ultimately show ?thesis using Some by auto
qed

text \<open>
  C1 (as amended): for a non-empty device set of ids the cache knows, the must-succeed
  form reports the conflict of the bucket that is first, in ascending id order, to
  receive a second device (the pass stops there, so no other bucket is ever flagged);
  when no bucket receives a second device it reports unknown with GPU in preference to
  unknown with CPU, the latter only when the flag does not allow the mixture; and it
  succeeds when none of these holds. Each error is an internal error whose text starts
  with the words of its conflict.
\<close>

theorem PickDeviceForXla_reported_conflict:
  assumes "\<not> IsEmpty ds" and "known_ids c (members ds)"
  shows "case reported_conflict (map (class_of c) (members ds)) allow of
      Some k \<Rightarrow> \<exists>rest. PickDeviceForXla c ds allow = Inl (Internal (conflict_text k @ rest))
    | None \<Rightarrow> \<exists>d. PickDeviceForXla c ds allow = Inr d"
  using picker_outcome [OF assms, of allow] by (auto split: option.splits)

text \<open>
  C2: on a non-empty device set of ids the cache knows on which no conflict fires (no
  two devices of one class, not unknown together with GPU, and not unknown together with
  CPU unless the flag allows it), the picker succeeds with a member of the set whose
  class is GPU if a GPU is present, otherwise unknown if an unknown-class device is
  present, otherwise CPU. So a CPU is chosen only when the set holds neither a GPU nor
  an unknown-class device.
\<close>

theorem PickDeviceForXla_priority:
  assumes "\<not> IsEmpty ds" and "known_ids c (members ds)"
    and "distinct (map (class_of c) (members ds))"
    and "\<not> (UnknownClass \<in> class_of c ` set (members ds)
            \<and> GpuClass \<in> class_of c ` set (members ds))"
    and "allow \<or> \<not> (UnknownClass \<in> class_of c ` set (members ds)
                     \<and> CpuClass \<in> class_of c ` set (members ds))"
  shows "\<exists>d. PickDeviceForXla c ds allow = Inr d \<and> d \<in> set (members ds)
           \<and> class_of c d =
               (if GpuClass \<in> class_of c ` set (members ds) then GpuClass
                else if UnknownClass \<in> class_of c ` set (members ds) then UnknownClass
                else CpuClass)
           \<and> (class_of c d = CpuClass \<longrightarrow>
                 GpuClass \<notin> class_of c ` set (members ds)
                 \<and> UnknownClass \<notin> class_of c ` set (members ds))"
proof -
  have "first_repeat [] (map (class_of c) (members ds)) = None"
    using assms(3) by (simp add: first_repeat_None)
  then have "reported_conflict (map (class_of c) (members ds)) allow = None"
    using assms(4,5) by (auto simp: reported_conflict_def)
  with picker_outcome [OF assms(1,2), of allow] obtain d where
    d: "d \<in> set (members ds)" "class_of c d = top_class c (members ds)"
       "PickDeviceForXla c ds allow = Inr d"
    by auto
  then show ?thesis unfolding top_class_def by (intro exI [of _ d]) (auto split: if_splits)
qed

lemma reported_conflict_unknown_gpu:
  assumes "UnknownClass \<in> set ks" and "GpuClass \<in> set ks"
  shows "reported_conflict ks allow \<noteq> None"
  using assms by (simp add: reported_conflict_def split: option.splits)

lemma reported_conflict_unknown_cpu:
  assumes "UnknownClass \<in> set ks" and "CpuClass \<in> set ks"
  shows "reported_conflict ks False \<noteq> None"
  using assms by (simp add: reported_conflict_def split: option.splits)

lemma picker_fails:
  assumes "known_ids c (members ds)" and "d0 \<in> set (members ds)"
    and "reported_conflict (map (class_of c) (members ds)) allow \<noteq> None"
  shows "(\<exists>msg. PickDeviceForXla c ds allow = Inl (Internal msg))
         \<and> CanPickDeviceForXla c ds allow = Inr False"
proof -
  from assms(2) have "members ds \<noteq> []" by auto
  then have ne: "\<not> IsEmpty ds" by (simp add: members_empty)
  from assms(3) obtain k where "reported_conflict (map (class_of c) (members ds)) allow = Some k"
    by auto
  with picker_outcome [OF ne assms(1), of allow] show ?thesis by auto
qed

text \<open>
  C3: on a device set of ids the cache knows, picking fails for either value of the flag
  when the set holds an unknown-class device and a GPU; it fails with the flag false
  when the set holds an unknown-class device and a CPU; and with the flag true it
  returns the unknown-class device when the set is exactly one unknown-class device and
  one CPU. The can-pick form answers false, false and true.
\<close>

theorem PickDeviceForXla_unknown_mixing:
  assumes "known_ids c (members ds)"
  shows "(u \<in> set (members ds) \<and> g \<in> set (members ds)
          \<and> class_of c u = UnknownClass \<and> class_of c g = GpuClass
          \<longrightarrow> (\<exists>msg. PickDeviceForXla c ds allow = Inl (Internal msg))
              \<and> CanPickDeviceForXla c ds allow = Inr False)
       \<and> (u \<in> set (members ds) \<and> k \<in> set (members ds)
          \<and> class_of c u = UnknownClass \<and> class_of c k = CpuClass
          \<longrightarrow> (\<exists>msg. PickDeviceForXla c ds False = Inl (Internal msg))
              \<and> CanPickDeviceForXla c ds False = Inr False)
       \<and> (set (members ds) = {u, k}
          \<and> class_of c u = UnknownClass \<and> class_of c k = CpuClass
          \<longrightarrow> PickDeviceForXla c ds True = Inr u \<and> CanPickDeviceForXla c ds True = Inr True)"
proof (intro conjI impI)
  assume h: "u \<in> set (members ds) \<and> g \<in> set (members ds)
          \<and> class_of c u = UnknownClass \<and> class_of c g = GpuClass"
  then have "UnknownClass \<in> set (map (class_of c) (members ds))"
    "GpuClass \<in> set (map (class_of c) (members ds))" by force+
  from picker_fails [OF assms _ reported_conflict_unknown_gpu [OF this]] h
  show "\<exists>msg. PickDeviceForXla c ds allow = Inl (Internal msg)"
    and "CanPickDeviceForXla c ds allow = Inr False" by blast+
next
  assume h: "u \<in> set (members ds) \<and> k \<in> set (members ds)
          \<and> class_of c u = UnknownClass \<and> class_of c k = CpuClass"
  then have "UnknownClass \<in> set (map (class_of c) (members ds))"
    "CpuClass \<in> set (map (class_of c) (members ds))" by force+
  from picker_fails [OF assms _ reported_conflict_unknown_cpu [OF this]] h
  show "\<exists>msg. PickDeviceForXla c ds False = Inl (Internal msg)"
    and "CanPickDeviceForXla c ds False = Inr False" by blast+
next
  assume h: "set (members ds) = {u, k}
          \<and> class_of c u = UnknownClass \<and> class_of c k = CpuClass"
  then have img: "class_of c ` set (members ds) = {UnknownClass, CpuClass}" by auto
  have "inj_on (class_of c) (set (members ds))" using h by (auto simp: inj_on_def)
  then have "distinct (map (class_of c) (members ds))"
    by (simp add: distinct_map distinct_members)
  then have "first_repeat [] (map (class_of c) (members ds)) = None"
    by (simp add: first_repeat_None)
  then have none: "reported_conflict (map (class_of c) (members ds)) True = None"
    using img by (simp add: reported_conflict_def)
  from h have "members ds \<noteq> []" by auto
  then have ne: "\<not> IsEmpty ds" by (simp add: members_empty)
  have top: "top_class c (members ds) = UnknownClass" using img by (simp add: top_class_def)
  from picker_outcome [OF ne assms, of True] none top obtain d where
    "d \<in> set (members ds)" "class_of c d = UnknownClass" "PickDeviceForXla c ds True = Inr d"
    and can: "CanPickDeviceForXla c ds True = Inr True"
    by auto
  moreover then have "d = u" using h by auto
  ultimately show "PickDeviceForXla c ds True = Inr u"
    and "CanPickDeviceForXla c ds True = Inr True" by simp_all
qed

text \<open>
  C4 (as amended): for a device set of ids the cache knows and either value of the
  flag: on the empty set both forms fail with the error of the check on
  \<^verbatim>\<open>!devices.IsEmpty()\<close>; on a non-empty set the can-pick form returns false and the
  must-succeed form fails with an internal error, or the can-pick form returns true and
  the must-succeed form returns a member of the set.
\<close>

theorem CanPickDeviceForXla_agrees:
  assumes "known_ids c (members ds)"
  shows "(IsEmpty ds \<longrightarrow>
            PickDeviceForXla c ds allow
              = Inl (RetCheckFailure ''!devices.IsEmpty()'' ''No devices to choose from'')
          \<and> CanPickDeviceForXla c ds allow
              = Inl (RetCheckFailure ''!devices.IsEmpty()'' ''No devices to choose from''))
       \<and> (\<not> IsEmpty ds \<longrightarrow>
            (CanPickDeviceForXla c ds allow = Inr False
               \<and> (\<exists>msg. PickDeviceForXla c ds allow = Inl (Internal msg)))
          \<or> (CanPickDeviceForXla c ds allow = Inr True
               \<and> (\<exists>d. PickDeviceForXla c ds allow = Inr d \<and> d \<in> set (members ds))))"
proof (cases "IsEmpty ds")
  case True
  then show ?thesis by (simp add: picker_empty)
next
  case False
  from picker_outcome [OF False assms, of allow] False show ?thesis
    by (cases "reported_conflict (map (class_of c) (members ds)) allow") auto
qed

section \<open>What the picker reads of the cache\<close>

lemma for_each_cong:
  assumes "\<And>d s. d \<in> set ids \<Longrightarrow> f d s = g d s"
  shows "for_each f ids s = for_each g ids s"
  using assms
proof (induction ids arbitrary: s)
  case Nil
  then show ?case by simp
next
  case (Cons d ids)
  have "f d s = g d s" using Cons.prems by simp
  moreover have "for_each f ids s' = for_each g ids s'" for s'
    using Cons.IH Cons.prems by simp
  ultimately show ?case by (simp split: sum.splits prod.splits)
qed

lemma classify_agree:
  "IsGpu c1 d = IsGpu c2 d \<Longrightarrow> IsCpu c1 d = IsCpu c2 d \<Longrightarrow> classify c1 d s = classify c2 d s"
  by (simp add: classify_def cong: sum.case_cong if_cong)

lemma DebugString_agree:
  assumes "\<And>d. d \<in> set (members ds) \<Longrightarrow> GetNameFor c1 d = GetNameFor c2 d"
  shows "DebugString c1 ds = DebugString c2 ds"
proof -
  have "for_each (push_name c1) (members ds) [] = for_each (push_name c2) (members ds) []"
    by (rule for_each_cong) (simp add: push_name_def assms)
  then show ?thesis by (simp add: DebugString_def ForEach_def)
qed

lemma classify_bucket:
  assumes "classify c d s = Inr (continue, s1)" and "bucket k s1 = Some x"
  shows "bucket k s = Some x \<or> x = d"
  using assms by (cases k) (auto simp: classify_def split: sum.splits if_splits)

lemma for_each_classify_bucket:
  assumes "for_each (classify c) ids s = Inr s'" and "bucket k s' = Some x"
  shows "bucket k s = Some x \<or> x \<in> set ids"
  using assms
proof (induction ids arbitrary: s)
  case Nil
  then show ?case by simp
next
  case (Cons d ids)
  from Cons.prems(1) obtain continue s1 where step: "classify c d s = Inr (continue, s1)"
    by (cases "classify c d s") auto
  show ?case
  proof (cases continue)
    case True
    with Cons.prems(1) step have "for_each (classify c) ids s1 = Inr s'" by simp
    from Cons.IH [OF this Cons.prems(2)] classify_bucket [OF step, of k x]
    show ?thesis by auto
  next
    case False
    with Cons.prems(1) step have "s' = s1" by simp
    with classify_bucket [OF step, of k x] Cons.prems(2) show ?thesis by auto
  qed
qed

lemma found_both_agree:
  "GetNameFor c1 a = GetNameFor c2 a \<Longrightarrow> GetNameFor c1 b = GetNameFor c2 b \<Longrightarrow>
   found_both_error c1 prefix a b = found_both_error c2 prefix a b"
  by (simp add: found_both_error_def cong: sum.case_cong)

lemma first_conflict_agree:
  assumes names: "\<And>k d. bucket k s = Some d \<Longrightarrow> GetNameFor c1 d = GetNameFor c2 d"
    and dbg: "DebugString c1 ds = DebugString c2 ds"
  shows "first_conflict c1 ds allow s = first_conflict c2 ds allow s"
proof -
  have ug: "found_both_error c1 prefix u g = found_both_error c2 prefix u g"
    if "maybe_unknown_device s = Some u" and "maybe_gpu_device s = Some g" for prefix u g
    by (rule found_both_agree) (simp_all add: names [of UnknownClass u] names [of GpuClass g] that)
  have uk: "found_both_error c1 prefix u k = found_both_error c2 prefix u k"
    if "maybe_unknown_device s = Some u" and "maybe_cpu_device s = Some k" for prefix u k
    by (rule found_both_agree) (simp_all add: names [of UnknownClass u] names [of CpuClass k] that)
  show ?thesis
  proof (cases "maybe_unknown_device s")
    case None
    then show ?thesis by (simp add: first_conflict_def dbg)
  next
    case u: (Some u)
    show ?thesis
    proof (cases "maybe_gpu_device s")
      case (Some g)
      then show ?thesis using u by (simp add: first_conflict_def dbg ug [OF u Some])
    next
      case g: None
      show ?thesis
      proof (cases "maybe_cpu_device s")
        case None
        then show ?thesis using u g by (simp add: first_conflict_def dbg)
      next
        case (Some k)
        then show ?thesis using u g by (simp add: first_conflict_def dbg uk [OF u Some])
      qed
    qed
  qed
qed

lemma Impl_agree:
  assumes "\<forall>d\<in>set (members ds). IsGpu c1 d = IsGpu c2 d \<and> IsCpu c1 d = IsCpu c2 d
              \<and> GetNameFor c1 d = GetNameFor c2 d"
  shows "PickDeviceForXlaImpl c1 ds allow cp dp = PickDeviceForXlaImpl c2 ds allow cp dp"
proof -
  have scan: "for_each (classify c1) (members ds) scan_init
      = for_each (classify c2) (members ds) scan_init"
    by (rule for_each_cong, rule classify_agree) (simp_all add: assms)
  have dbg: "DebugString c1 ds = DebugString c2 ds"
    by (rule DebugString_agree) (simp add: assms)
  have fc: "first_conflict c1 ds allow s = first_conflict c2 ds allow s"
    if "for_each (classify c2) (members ds) scan_init = Inr s" for s
  proof (rule first_conflict_agree [OF _ dbg])
    fix k d
    assume "bucket k s = Some d"
    from for_each_classify_bucket [OF that this] have "d \<in> set (members ds)"
      by (simp add: bucket_init)
    then show "GetNameFor c1 d = GetNameFor c2 d" using assms by simp
  qed
  show ?thesis
  proof (cases "for_each (classify c2) (members ds) scan_init")
    case (Inl e)
    then show ?thesis by (simp add: PickDeviceForXlaImpl_def ForEach_def scan)
  next
    case (Inr s)
    then show ?thesis by (simp add: PickDeviceForXlaImpl_def ForEach_def scan fc [OF Inr])
  qed
qed

text \<open>
  C10: the outcome of both forms of the picker depends only on what \<^verbatim>\<open>IsGpu\<close>, \<^verbatim>\<open>IsCpu\<close>
  and \<^verbatim>\<open>GetNameFor\<close> answer for the members of the device set. Two caches that agree on
  these three lookups for every member give the same result of the must-succeed form
  (the chosen device or the error with its text) and of the can-pick form, whatever
  their compilation registrations, device types and intern tables are.
\<close>

theorem picker_depends_on_member_attributes_only:
  assumes "\<forall>d\<in>set (members ds). IsGpu c1 d = IsGpu c2 d \<and> IsCpu c1 d = IsCpu c2 d
              \<and> GetNameFor c1 d = GetNameFor c2 d"
  shows "PickDeviceForXla c1 ds allow = PickDeviceForXla c2 ds allow
       \<and> CanPickDeviceForXla c1 ds allow = CanPickDeviceForXla c2 ds allow"
  by (simp add: PickDeviceForXla_def CanPickDeviceForXla_def Impl_agree [OF assms])

section \<open>The picker on sample inputs\<close>

text \<open>The sample caches are what \<^verbatim>\<open>GetIdFor\<close> builds from the empty cache.\<close>

lemma cpu_gpu_cache_interned:
  "intern_all sample_env [''/device:CPU:0'', ''/device:GPU:0''] empty_cache = cpu_gpu_cache"
  by (simp add: intern_all_def GetIdFor_def sample_env_def empty_cache_def
      DeviceNameToDeviceType_def cpu_gpu_cache_def cache_of_def Let_def fun_eq_iff)

lemma cpu_cpu_gpu_gpu_cache_interned:
  "intern_all sample_env
     [''/device:CPU:0'', ''/device:CPU:1'', ''/device:GPU:0'', ''/device:GPU:1''] empty_cache
   = cpu_cpu_gpu_gpu_cache"
  by (simp add: intern_all_def GetIdFor_def sample_env_def empty_cache_def
      DeviceNameToDeviceType_def cpu_cpu_gpu_gpu_cache_def cache_of_def Let_def fun_eq_iff)

lemma cpu_xpu_gpu_cache_interned:
  "intern_all sample_env [''/device:CPU:0'', ''/device:XPU:0'', ''/device:GPU:0''] empty_cache
   = cpu_xpu_gpu_cache"
  by (simp add: intern_all_def GetIdFor_def sample_env_def empty_cache_def
      DeviceNameToDeviceType_def cpu_xpu_gpu_cache_def cache_of_def Let_def fun_eq_iff)

lemma members_0123: "members (device_set_of [0, 1, 2, 3]) = [0, 1, 2, 3]"
  by code_simp

lemma members_12: "members (device_set_of [1, 2]) = [1, 2]"
  by code_simp

theorem picker_depends_on_member_attributes_only_witness:
  "id_to_compilation_device cpu_gpu_cache \<noteq> id_to_compilation_device cpu_gpu_cache_unregistered
   \<and> PickDeviceForXla cpu_gpu_cache (device_set_of [0, 1]) False
       = PickDeviceForXla cpu_gpu_cache_unregistered (device_set_of [0, 1]) False
   \<and> CanPickDeviceForXla cpu_gpu_cache (device_set_of [0, 1]) False
       = CanPickDeviceForXla cpu_gpu_cache_unregistered (device_set_of [0, 1]) False
   \<and> PickDeviceForXla cpu_gpu_cache (device_set_of [0, 1]) False = Inr 1"
proof -
  have agree: "\<forall>d\<in>set (members (device_set_of [0, 1])).
      IsGpu cpu_gpu_cache d = IsGpu cpu_gpu_cache_unregistered d
      \<and> IsCpu cpu_gpu_cache d = IsCpu cpu_gpu_cache_unregistered d
      \<and> GetNameFor cpu_gpu_cache d = GetNameFor cpu_gpu_cache_unregistered d"
    by (simp add: members_01 IsGpu_def IsCpu_def GetNameFor_def cpu_gpu_cache_unregistered_def)
  have differ: "id_to_compilation_device cpu_gpu_cache
      \<noteq> id_to_compilation_device cpu_gpu_cache_unregistered"
    by (simp add: cpu_gpu_cache_unregistered_def cpu_gpu_cache_def cache_of_def sample_env_def)
  have val: "PickDeviceForXla cpu_gpu_cache (device_set_of [0, 1]) False = Inr 1"
    by code_simp
  from picker_depends_on_member_attributes_only [OF agree, of False] differ val
  show ?thesis by blast
qed

text \<open>
  C1 as first stated fails: on the set of two CPUs (ids 0 and 1) and two GPUs (ids 2
  and 3) the conflicts of multiple GPUs and of multiple CPUs both hold, and the error
  reported is the one of multiple CPUs, for either value of the flag.
\<close>

theorem multiple_cpu_reported_before_multiple_gpu:
  "members (device_set_of [0, 1, 2, 3]) = [0, 1, 2, 3]
   \<and> map (class_of cpu_cpu_gpu_gpu_cache) [0, 1, 2, 3] = [CpuClass, CpuClass, GpuClass, GpuClass]
   \<and> PickDeviceForXla cpu_cpu_gpu_gpu_cache (device_set_of [0, 1, 2, 3]) False
       = Inl (Internal ''Multiple CPU devices [/device:CPU:0]'')
   \<and> PickDeviceForXla cpu_cpu_gpu_gpu_cache (device_set_of [0, 1, 2, 3]) True
       = Inl (Internal ''Multiple CPU devices [/device:CPU:0]'')"
proof -
  have a: "map (class_of cpu_cpu_gpu_gpu_cache) [0, 1, 2, 3]
      = [CpuClass, CpuClass, GpuClass, GpuClass]"
    by code_simp
  have b: "PickDeviceForXla cpu_cpu_gpu_gpu_cache (device_set_of [0, 1, 2, 3]) False
       = Inl (Internal ''Multiple CPU devices [/device:CPU:0]'')"
    by code_simp
  have c: "PickDeviceForXla cpu_cpu_gpu_gpu_cache (device_set_of [0, 1, 2, 3]) True
       = Inl (Internal ''Multiple CPU devices [/device:CPU:0]'')"
    by code_simp
  from members_0123 a b c show ?thesis by blast
qed

theorem PickDeviceForXla_reported_conflict_witness:
  "\<not> IsEmpty (device_set_of [0, 1, 2, 3])
   \<and> known_ids cpu_cpu_gpu_gpu_cache (members (device_set_of [0, 1, 2, 3]))
   \<and> reported_conflict
        (map (class_of cpu_cpu_gpu_gpu_cache) (members (device_set_of [0, 1, 2, 3]))) False
       = Some MultipleCpu
   \<and> (\<exists>rest. PickDeviceForXla cpu_cpu_gpu_gpu_cache (device_set_of [0, 1, 2, 3]) False
         = Inl (Internal (''Multiple CPU devices '' @ rest)))"
proof -
  have ne: "\<not> IsEmpty (device_set_of [0, 1, 2, 3])" by code_simp
  have known: "known_ids cpu_cpu_gpu_gpu_cache (members (device_set_of [0, 1, 2, 3]))"
    unfolding members_0123 by code_simp
  have rc: "reported_conflict
        (map (class_of cpu_cpu_gpu_gpu_cache) (members (device_set_of [0, 1, 2, 3]))) False
       = Some MultipleCpu"
    unfolding members_0123 by code_simp
  from PickDeviceForXla_reported_conflict [OF ne known, of False] rc
  have "\<exists>rest. PickDeviceForXla cpu_cpu_gpu_gpu_cache (device_set_of [0, 1, 2, 3]) False
         = Inl (Internal (''Multiple CPU devices '' @ rest))"
    by simp
  with ne known rc show ?thesis by blast
qed

theorem PickDeviceForXla_priority_witness:
  "\<not> IsEmpty (device_set_of [0, 1])
   \<and> known_ids cpu_gpu_cache (members (device_set_of [0, 1]))
   \<and> map (class_of cpu_gpu_cache) (members (device_set_of [0, 1])) = [CpuClass, GpuClass]
   \<and> PickDeviceForXla cpu_gpu_cache (device_set_of [0, 1]) False = Inr 1"
proof -
  let ?c = cpu_gpu_cache and ?ds = "device_set_of [0, 1]"
  have ne: "\<not> IsEmpty ?ds" by code_simp
  have known: "known_ids ?c (members ?ds)" unfolding members_01 by code_simp
  have cls: "map (class_of ?c) (members ?ds) = [CpuClass, GpuClass]"
    unfolding members_01 by code_simp
  then have img: "class_of ?c ` set (members ?ds) = {CpuClass, GpuClass}"
    by (metis list.set_map list.simps(15) empty_set)
  have dist: "distinct (map (class_of ?c) (members ?ds))" unfolding cls by simp
  have nug: "\<not> (UnknownClass \<in> class_of ?c ` set (members ?ds)
            \<and> GpuClass \<in> class_of ?c ` set (members ?ds))" unfolding img by simp
  have nuc: "False \<or> \<not> (UnknownClass \<in> class_of ?c ` set (members ?ds)
            \<and> CpuClass \<in> class_of ?c ` set (members ?ds))" unfolding img by simp
  from PickDeviceForXla_priority [OF ne known dist nug nuc] obtain d where
    d: "PickDeviceForXla ?c ?ds False = Inr d" "d \<in> set (members ?ds)"
       "class_of ?c d = GpuClass"
    unfolding img by auto
  from cls have "class_of ?c 0 = CpuClass" unfolding members_01 by simp
  with d(2,3) have "d = 1" unfolding members_01 by auto
  with d(1) ne known cls show ?thesis by blast
qed

theorem PickDeviceForXla_unknown_mixing_witness:
  "known_ids cpu_xpu_gpu_cache (members (device_set_of [1, 2]))
   \<and> known_ids cpu_xpu_gpu_cache (members (device_set_of [0, 1]))
   \<and> (\<exists>msg. PickDeviceForXla cpu_xpu_gpu_cache (device_set_of [1, 2]) True = Inl (Internal msg))
   \<and> (\<exists>msg. PickDeviceForXla cpu_xpu_gpu_cache (device_set_of [1, 2]) False = Inl (Internal msg))
   \<and> (\<exists>msg. PickDeviceForXla cpu_xpu_gpu_cache (device_set_of [0, 1]) False = Inl (Internal msg))
   \<and> PickDeviceForXla cpu_xpu_gpu_cache (device_set_of [0, 1]) True = Inr 1
   \<and> CanPickDeviceForXla cpu_xpu_gpu_cache (device_set_of [0, 1]) True = Inr True"
proof -
  let ?c = cpu_xpu_gpu_cache
  have k12: "known_ids ?c (members (device_set_of [1, 2]))" unfolding members_12 by code_simp
  have k01: "known_ids ?c (members (device_set_of [0, 1]))" unfolding members_01 by code_simp
  have c0: "class_of ?c 0 = CpuClass" and c1: "class_of ?c 1 = UnknownClass"
    and c2: "class_of ?c 2 = GpuClass" by code_simp+
  have s01: "set (members (device_set_of [0, 1])) = {1, 0}" unfolding members_01 by auto
  have m12: "1 \<in> set (members (device_set_of [1, 2]))" "2 \<in> set (members (device_set_of [1, 2]))"
    unfolding members_12 by simp_all
  have m01: "1 \<in> set (members (device_set_of [0, 1]))" "0 \<in> set (members (device_set_of [0, 1]))"
    unfolding members_01 by simp_all
  from PickDeviceForXla_unknown_mixing [OF k12, of 1 2 True 0] c1 c2 m12
  have a: "\<exists>msg. PickDeviceForXla ?c (device_set_of [1, 2]) True = Inl (Internal msg)"
    by blast
  from PickDeviceForXla_unknown_mixing [OF k12, of 1 2 False 0] c1 c2 m12
  have b: "\<exists>msg. PickDeviceForXla ?c (device_set_of [1, 2]) False = Inl (Internal msg)"
    by blast
  from PickDeviceForXla_unknown_mixing [OF k01, of 1 2 False 0] c1 c0 s01 m01
  have c: "(\<exists>msg. PickDeviceForXla ?c (device_set_of [0, 1]) False = Inl (Internal msg))
    \<and> PickDeviceForXla ?c (device_set_of [0, 1]) True = Inr 1
    \<and> CanPickDeviceForXla ?c (device_set_of [0, 1]) True = Inr True"
    by blast
  from k12 k01 a b c show ?thesis by blast
qed

text \<open>
  C4 as first stated fails: on the empty device set the must-succeed form fails, yet
  the can-pick form does not return false; it fails with the same error.
\<close>

theorem CanPickDeviceForXla_errs_on_empty_set:
  "IsEmpty []
   \<and> PickDeviceForXla cpu_gpu_cache [] False
       = Inl (RetCheckFailure ''!devices.IsEmpty()'' ''No devices to choose from'')
   \<and> CanPickDeviceForXla cpu_gpu_cache [] False
       = Inl (RetCheckFailure ''!devices.IsEmpty()'' ''No devices to choose from'')"
  by (simp add: IsEmpty_def PickDeviceForXla_def CanPickDeviceForXla_def PickDeviceForXlaImpl_def)

theorem CanPickDeviceForXla_agrees_witness:
  "known_ids cpu_xpu_gpu_cache (members (device_set_of [0, 1]))
   \<and> \<not> IsEmpty (device_set_of [0, 1])
   \<and> CanPickDeviceForXla cpu_xpu_gpu_cache (device_set_of [0, 1]) False = Inr False
   \<and> (\<exists>msg. PickDeviceForXla cpu_xpu_gpu_cache (device_set_of [0, 1]) False = Inl (Internal msg))
   \<and> CanPickDeviceForXla cpu_xpu_gpu_cache (device_set_of [0, 1]) True = Inr True
   \<and> (\<exists>d. PickDeviceForXla cpu_xpu_gpu_cache (device_set_of [0, 1]) True = Inr d)
   \<and> known_ids cpu_xpu_gpu_cache (members [])
   \<and> CanPickDeviceForXla cpu_xpu_gpu_cache [] True
       = Inl (RetCheckFailure ''!devices.IsEmpty()'' ''No devices to choose from'')"
proof -
  let ?c = cpu_xpu_gpu_cache and ?ds = "device_set_of [0, 1]"
  have known: "known_ids ?c (members ?ds)" unfolding members_01 by code_simp
  have ne: "\<not> IsEmpty ?ds" by code_simp
  have f: "CanPickDeviceForXla ?c ?ds False = Inr False" by code_simp
  have t: "CanPickDeviceForXla ?c ?ds True = Inr True" by code_simp
  have ke: "known_ids ?c (members [])" by (simp add: members_def known_ids_def)
  have e: "IsEmpty []" by (simp add: IsEmpty_def)
  from CanPickDeviceForXla_agrees [OF known, of False] ne f
  have pf: "\<exists>msg. PickDeviceForXla ?c ?ds False = Inl (Internal msg)" by simp
  from CanPickDeviceForXla_agrees [OF known, of True] ne t
  have pt: "\<exists>d. PickDeviceForXla ?c ?ds True = Inr d" by auto
  from CanPickDeviceForXla_agrees [OF ke, of True] e
  have ce: "CanPickDeviceForXla ?c [] True
       = Inl (RetCheckFailure ''!devices.IsEmpty()'' ''No devices to choose from'')" by simp
  from known ne f pf t pt ke ce show ?thesis by blast
qed

end
